theory Spec2Isabelle
  imports Main
begin

section \<open>Strings\<close>

text \<open>
  A Python \<open>str\<close> is modelled as a \<^typ>\<open>string\<close>, a list of characters; a character
  stands for the code point of the same number, so the model covers the code points
  0 to 255 and \<^const>\<open>length\<close> is Python's \<open>len\<close>.
\<close>

definition isspace :: "char \<Rightarrow> bool" where
  \<comment> \<open>\<open>str.isspace\<close> of one character, which is also what \<open>str.strip()\<close>,
      \<open>str.split()\<close> and the \<open>\s\<close> of \<open>re\<close> use: the code points 9 to 13, 28 to 32,
      133 and 160.\<close>
  "isspace c =
     (let n = (of_char c :: nat)
      in (9 \<le> n \<and> n \<le> 13) \<or> (28 \<le> n \<and> n \<le> 32) \<or> n = 133 \<or> n = 160)"

definition strip :: "string \<Rightarrow> string" where
  \<comment> \<open>\<open>s.strip()\<close>\<close>
  "strip s = rev (dropWhile isspace (rev (dropWhile isspace s)))"

definition replace_char :: "char \<Rightarrow> char \<Rightarrow> string \<Rightarrow> string" where
  \<comment> \<open>\<open>s.replace(a, b)\<close> for one-character \<open>a\<close> and \<open>b\<close>\<close>
  "replace_char a b s = map (\<lambda>c. if c = a then b else c) s"

fun split_acc :: "char \<Rightarrow> string \<Rightarrow> string \<Rightarrow> string list" where
  "split_acc sep acc [] = [acc]"
| "split_acc sep acc (c # cs) =
     (if c = sep then acc # split_acc sep [] cs else split_acc sep (acc @ [c]) cs)"

definition split_on :: "char \<Rightarrow> string \<Rightarrow> string list" where
  \<comment> \<open>\<open>s.split(sep)\<close> for a one-character \<open>sep\<close>: the fragments between the
      separators, empty ones included\<close>
  "split_on sep s = split_acc sep [] s"

fun join :: "string \<Rightarrow> string list \<Rightarrow> string" where
  \<comment> \<open>\<open>sep.join(xs)\<close>\<close>
  "join sep [] = []"
| "join sep [x] = x"
| "join sep (x # y # ys) = x @ sep @ join sep (y # ys)"

section \<open>The text chunker (\<open>JarvisTTS._chunk_text\<close>)\<close>

definition seal :: "string list \<Rightarrow> string" where
  \<comment> \<open>\<open>". ".join(current) + "."\<close>\<close>
  "seal current = join ''. '' current @ ''.''"

fun chunk_loop :: "int \<Rightarrow> string list \<Rightarrow> string list \<Rightarrow> string list
                   \<Rightarrow> string list \<times> string list" where
  \<comment> \<open>the \<open>for sentence in ...\<close> loop, on the state \<open>(chunks, current)\<close>\<close>
  "chunk_loop max_chunk_len chunks current [] = (chunks, current)"
| "chunk_loop max_chunk_len chunks current (raw # rest) =
     (let sentence = strip raw in
      if sentence = [] then chunk_loop max_chunk_len chunks current rest
      else
        let candidate = strip (join ''. '' (current @ [sentence])) in
        if int (length candidate) \<le> max_chunk_len
        then chunk_loop max_chunk_len chunks (current @ [sentence]) rest
        else chunk_loop max_chunk_len
               (if current \<noteq> [] then chunks @ [seal current] else chunks)
               [sentence] rest)"

definition chunk_text :: "int \<Rightarrow> string \<Rightarrow> string list" where
  \<comment> \<open>\<open>self._chunk_text(text)\<close>, with \<open>self.max_chunk_len\<close> as first argument\<close>
  "chunk_text max_chunk_len text0 =
     (let text = strip text0 in
      if int (length text) \<le> max_chunk_len then [text]
      else
        let (chunks, current) =
              chunk_loop max_chunk_len [] []
                (split_on (CHR ''.'')
                   (replace_char (CHR ''!'') (CHR ''.'')
                      (replace_char (CHR ''?'') (CHR ''.'') text)))
        in if current \<noteq> [] then chunks @ [seal current] else chunks)"

subsection \<open>Sentences of a text and of its chunks\<close>

text \<open>
  The sentences of a string are its fragments between periods, trimmed, the empty ones
  dropped; those of a text are taken after \<open>?\<close> and \<open>!\<close> are replaced by periods, as
  \<open>_chunk_text\<close> does. \<open>rejoin\<close> reads the sentences back from a list of chunks.
\<close>

definition fragments :: "string \<Rightarrow> string list" where
  "fragments s = filter (\<lambda>f. f \<noteq> []) (map strip (split_on (CHR ''.'') s))"

definition sentences :: "string \<Rightarrow> string list" where
  "sentences text =
     fragments (replace_char (CHR ''!'') (CHR ''.'') (replace_char (CHR ''?'') (CHR ''.'') text))"

definition rejoin :: "string list \<Rightarrow> string list" where
  "rejoin chunks = concat (map fragments chunks)"

text \<open>What the loop keeps in \<open>current\<close>: trimmed, non-empty fragments without a period.\<close>

definition clean :: "string \<Rightarrow> bool" where
  "clean x = (x \<noteq> [] \<and> strip x = x \<and> CHR ''.'' \<notin> set x)"

text \<open>
  What the loop does guarantee for a chunk: it is at most one character longer than the
  limit, or it is one sentence longer than the limit followed by a period.
\<close>

definition within_limit :: "int \<Rightarrow> string \<Rightarrow> bool" where
  "within_limit m c =
     (int (length c) \<le> m + 1
      \<or> (c \<noteq> [] \<and> last c = CHR ''.'' \<and> clean (butlast c) \<and> int (length (butlast c)) > m))"

definition current_ok :: "int \<Rightarrow> string list \<Rightarrow> bool" where
  \<comment> \<open>the invariant of \<open>current\<close>\<close>
  "current_ok m cur =
     ((\<forall>x\<in>set cur. clean x) \<and>
      (cur = [] \<or> int (length (join ''. '' cur)) \<le> m \<or> (\<exists>s. cur = [s] \<and> int (length s) > m)))"

text \<open>A text made of sentence terminators and whitespace only.\<close>

definition terminators_only :: "string \<Rightarrow> bool" where
  "terminators_only text = list_all (\<lambda>c. c \<in> set ''.?!'' \<or> isspace c) text"

section \<open>The website resolver (\<open>Web_Open.py\<close>)\<close>

subsection \<open>More string operations\<close>

definition lower_char :: "char \<Rightarrow> char" where
  \<comment> \<open>\<open>str.lower\<close> on one character: the capitals A to Z and the code points 192 to
      222 other than 215 move up by 32\<close>
  "lower_char c =
     (let n = (of_char c :: nat)
      in if (65 \<le> n \<and> n \<le> 90) \<or> (192 \<le> n \<and> n \<le> 222 \<and> n \<noteq> 215)
         then char_of (n + 32) else c)"

definition lower :: "string \<Rightarrow> string" where
  \<comment> \<open>\<open>s.lower()\<close>\<close>
  "lower s = map lower_char s"

definition strip_chars :: "string \<Rightarrow> string \<Rightarrow> string" where
  \<comment> \<open>\<open>s.strip(chars)\<close>\<close>
  "strip_chars chars s =
     rev (dropWhile (\<lambda>c. c \<in> set chars) (rev (dropWhile (\<lambda>c. c \<in> set chars) s)))"

definition startswith :: "string \<Rightarrow> string \<Rightarrow> bool" where
  \<comment> \<open>\<open>s.startswith(p)\<close>\<close>
  "startswith s p = (take (length p) s = p)"

definition endswith :: "string \<Rightarrow> string \<Rightarrow> bool" where
  \<comment> \<open>\<open>s.endswith(p)\<close>\<close>
  "endswith s p = (length p \<le> length s \<and> drop (length s - length p) s = p)"

definition slice_from :: "nat \<Rightarrow> string \<Rightarrow> string" where
  \<comment> \<open>\<open>s[n:]\<close> for \<open>n \<ge> 0\<close>\<close>
  "slice_from n s = drop n s"

definition slice_to_neg :: "nat \<Rightarrow> string \<Rightarrow> string" where
  \<comment> \<open>\<open>s[:-n]\<close> for \<open>n \<ge> 0\<close>; \<open>s[:-0]\<close> is \<open>s[:0]\<close>, the empty string\<close>
  "slice_to_neg n s = (if n = 0 then [] else take (length s - n) s)"

fun split_ws_acc :: "string \<Rightarrow> string \<Rightarrow> string list" where
  "split_ws_acc acc [] = (if acc = [] then [] else [acc])"
| "split_ws_acc acc (c # cs) =
     (if isspace c
      then (if acc = [] then split_ws_acc [] cs else acc # split_ws_acc [] cs)
      else split_ws_acc (acc @ [c]) cs)"

definition split_ws :: "string \<Rightarrow> string list" where
  \<comment> \<open>\<open>s.split()\<close>: the maximal runs of characters that are not whitespace\<close>
  "split_ws s = split_ws_acc [] s"


definition str_bool :: "bool \<Rightarrow> string" where
  \<comment> \<open>\<open>str(b)\<close>\<close>
  "str_bool b = (if b then ''True'' else ''False'')"

subsection \<open>\<open>normalize_word\<close>\<close>

fun strip_prefixes :: "string list \<Rightarrow> string \<Rightarrow> string" where
  \<comment> \<open>\<open>for prefix in ps: if w.startswith(prefix): w = w[len(prefix):]\<close>\<close>
  "strip_prefixes [] w = w"
| "strip_prefixes (prefix # ps) w =
     strip_prefixes ps (if startswith w prefix then slice_from (length prefix) w else w)"

fun strip_suffixes :: "string list \<Rightarrow> string \<Rightarrow> string" where
  \<comment> \<open>\<open>for suffix in ss: if w.endswith(suffix): w = w[:-len(suffix)]\<close>\<close>
  "strip_suffixes [] w = w"
| "strip_suffixes (suffix # ss) w =
     strip_suffixes ss (if endswith w suffix then slice_to_neg (length suffix) w else w)"

definition word_head :: "string \<Rightarrow> string" where
  \<comment> \<open>\<open>normalize_word\<close> up to and including the removal of \<open>www.\<close>: the value of \<open>w\<close>
      when the loop over the domain endings starts\<close>
  "word_head word =
     (let w = strip (lower word);
          w = strip_chars ('',.!?/:'' @ [CHR 0x5C] @ ''|'') w;
          w = strip_prefixes [''http://'', ''https://''] w;
          w = (if startswith w ''www.'' then slice_from 4 w else w)
      in w)"

definition normalize_word :: "string \<Rightarrow> string" where
  "normalize_word word = strip_suffixes [''.com'', ''.in'', ''.org'', ''.net''] (word_head word)"

definition loses_at_most_one_suffix :: "string \<Rightarrow> bool" where
  \<comment> \<open>the claim that \<open>normalize_word\<close> strips at most one ending: the cleaned word is the
      result, or the result followed by one ending of the list\<close>
  "loses_at_most_one_suffix word =
     (word_head word
        \<in> set (map (\<lambda>suffix. normalize_word word @ suffix)
                 [[], ''.com'', ''.in'', ''.org'', ''.net'']))"

subsection \<open>The world the scripts act on\<close>

text \<open>
  Effects are explicit: a function that prints, reads a line, opens a URL or appends to
  a file takes the world and returns the new one. An exception is a value: the result
  of a function that can raise is \<open>py_exc + 'a\<close>, with \<open>Inl\<close> for the exception that
  leaves the function. All exceptions of the model are subclasses of \<open>Exception\<close>, so
  \<open>except Exception\<close> catches each of them.
\<close>

datatype py_exc =
    OSError string    \<comment> \<open>an I/O failure, with its message\<close>
  | EOFError          \<comment> \<open>\<open>input()\<close> at the end of standard input\<close>
  | ValueError string \<comment> \<open>\<open>int(s)\<close> on a string that is not a decimal number\<close>
  | KeyError string   \<comment> \<open>\<open>d[k]\<close> for a missing key\<close>

fun exc_str :: "py_exc \<Rightarrow> string" where
  \<comment> \<open>\<open>str(e)\<close>\<close>
  "exc_str (OSError msg) = msg"
| "exc_str EOFError = ''''"
| "exc_str (ValueError msg) = msg"
| "exc_str (KeyError k) = k"

record world =
  input_file :: string   \<comment> \<open>the content of \<open>INPUT_FILE\<close>, \<open>input.txt\<close> beside \<open>Web_Open.py\<close>\<close>
  output_file :: string  \<comment> \<open>the content of \<open>OUTPUT_FILE\<close>, \<open>input.txt\<close> beside \<open>SpeechToText_Python.py\<close>\<close>
  console :: string      \<comment> \<open>everything written to standard output\<close>
  stdin :: "string list" \<comment> \<open>the lines the operator will still type\<close>
  browser :: "string list" \<comment> \<open>the URLs given to \<open>webbrowser.open\<close>, in order\<close>

datatype io_outcome =
    Io_ok              \<comment> \<open>opening the file and writing to it succeed\<close>
  | Io_error string    \<comment> \<open>opening the file or writing to it raises \<open>OSError\<close>\<close>

definition print :: "string \<Rightarrow> world \<Rightarrow> world" where
  \<comment> \<open>\<open>print(s)\<close>\<close>
  "print s w = w\<lparr>console := console w @ s @ [CHR 0x0A]\<rparr>"



subsection \<open>\<open>log_to_file\<close> and \<open>append_to_input_file\<close>\<close>

text \<open>
  The clock and the file system are inputs: \<open>timestamp\<close> is the value of
  \<open>datetime.now().strftime("%Y-%m-%d %H:%M:%S")\<close> and \<open>io\<close> says whether the append
  succeeds. A failed append leaves the file as it was.
\<close>

definition log_line :: "string \<Rightarrow> string \<Rightarrow> bool option \<Rightarrow> string" where
  \<comment> \<open>the two f-strings of \<open>log_to_file\<close>\<close>
  "log_line timestamp message status =
     (case status of
        Some b \<Rightarrow> timestamp @ '' | DEEP: '' @ message @ '' | '' @ str_bool b @ [CHR 0x0A]
      | None \<Rightarrow> timestamp @ '' |  DEEP: '' @ message @ [CHR 0x0A])"

definition log_to_file_try :: "string \<Rightarrow> bool option \<Rightarrow> string \<Rightarrow> io_outcome \<Rightarrow> world
                               \<Rightarrow> py_exc + world" where
  \<comment> \<open>the body of the \<open>try\<close> of \<open>log_to_file\<close>\<close>
  "log_to_file_try message status timestamp io w =
     (case io of
        Io_error msg \<Rightarrow> Inl (OSError msg)
      | Io_ok \<Rightarrow> Inr (w\<lparr>input_file := input_file w @ log_line timestamp message status\<rparr>))"

definition log_to_file :: "string \<Rightarrow> bool option \<Rightarrow> string \<Rightarrow> io_outcome \<Rightarrow> world
                           \<Rightarrow> py_exc + world" where
  "log_to_file message status timestamp io w =
     (case log_to_file_try message status timestamp io w of
        Inr w' \<Rightarrow> Inr w'
      | Inl e \<Rightarrow>
          Inr (print (''[LOG ERROR] There is a problem writing to input.txt: '' @ exc_str e) w))"

definition Fore_RED :: string where
  \<comment> \<open>\<open>colorama.Fore.RED\<close>\<close>
  "Fore_RED = [CHR 0x1B] @ ''[31m''"

definition append_to_input_file_try :: "string \<Rightarrow> string \<Rightarrow> io_outcome \<Rightarrow> world
                                        \<Rightarrow> py_exc + world" where
  \<comment> \<open>the body of the \<open>try\<close> of \<open>append_to_input_file\<close>; \<open>io\<close> covers \<open>mkdir\<close> too\<close>
  "append_to_input_file_try text timestamp io w =
     (case io of
        Io_error msg \<Rightarrow> Inl (OSError msg)
      | Io_ok \<Rightarrow>
          Inr (w\<lparr>output_file := output_file w @ timestamp @ '' | DEEP: '' @ text @ [CHR 0x0A]\<rparr>))"

definition append_to_input_file :: "string \<Rightarrow> string \<Rightarrow> io_outcome \<Rightarrow> world
                                    \<Rightarrow> py_exc + world" where
  "append_to_input_file text timestamp io w =
     (case append_to_input_file_try text timestamp io w of
        Inr w' \<Rightarrow> Inr w'
      | Inl e \<Rightarrow> Inr (print (Fore_RED @ ''File write error: '' @ exc_str e) w))"

subsection \<open>\<open>similarity\<close> and \<open>get_candidates\<close>\<close>






subsection \<open>\<open>openweb\<close>\<close>
















section \<open>The punctuation normalizer (\<open>SpeechToText_Python.py\<close>)\<close>

subsection \<open>Regular expressions as \<open>re\<close> matches them\<close>

text \<open>
  The patterns of the module use literal characters, \<open>\s\<close>, character sets, \<open>\b\<close>,
  greedy \<open>*\<close> and \<open>+\<close> on \<open>\s\<close> or a set, sequence, alternation and one capturing group.
  \<open>re_match\<close> is the backtracking matcher of \<open>re\<close>: it tries the alternatives from left
  to right and the longest repetition first, and hands each way of matching to the
  continuation \<open>k\<close> (the rest of the pattern) until one succeeds. A matching state is
  the character before the position (none at the start of the string), the text from
  the position on, and the text of group 1 when it has matched.
\<close>

datatype cc =
    Space         \<comment> \<open>\<open>\s\<close>\<close>
  | OneOf string  \<comment> \<open>\<open>[...]\<close>, the set of the listed characters\<close>

datatype re =
    Eps             \<comment> \<open>the empty pattern\<close>
  | Chr char        \<comment> \<open>a literal character\<close>
  | Cls cc          \<comment> \<open>one character of the class\<close>
  | Star cc         \<comment> \<open>\<open>c*\<close>, greedy\<close>
  | Plus cc         \<comment> \<open>\<open>c+\<close>, greedy\<close>
  | WordB           \<comment> \<open>\<open>\b\<close>\<close>
  | Then re re      \<comment> \<open>\<open>ab\<close>\<close>
  | Or re re        \<comment> \<open>\<open>a|b\<close>\<close>
  | Group re        \<comment> \<open>\<open>(a)\<close>, group 1\<close>

type_synonym mstate = "char option \<times> string \<times> string option"

definition is_word :: "char \<Rightarrow> bool" where
  \<comment> \<open>\<open>\w\<close>: the alphanumeric code points below 256, and the underscore\<close>
  "is_word c =
     (let n = (of_char c :: nat)
      in (48 \<le> n \<and> n \<le> 57) \<or> (65 \<le> n \<and> n \<le> 90) \<or> n = 95 \<or> (97 \<le> n \<and> n \<le> 122)
         \<or> n = 170 \<or> n = 178 \<or> n = 179 \<or> n = 181 \<or> n = 185 \<or> n = 186
         \<or> (188 \<le> n \<and> n \<le> 190) \<or> (192 \<le> n \<and> n \<le> 214) \<or> (216 \<le> n \<and> n \<le> 246)
         \<or> (248 \<le> n \<and> n \<le> 255))"

definition is_boundary :: "char option \<Rightarrow> string \<Rightarrow> bool" where
  \<comment> \<open>\<open>\b\<close>: exactly one of the characters before and after the position is a word
      character; the ends of the string count as non-word\<close>
  "is_boundary prev rest =
     ((case prev of None \<Rightarrow> False | Some p \<Rightarrow> is_word p)
      \<noteq> (case rest of [] \<Rightarrow> False | c # cs \<Rightarrow> is_word c))"

definition chr_eq :: "bool \<Rightarrow> char \<Rightarrow> char \<Rightarrow> bool" where
  \<comment> \<open>a literal of the pattern against a character of the text; with \<open>re.I\<close> both are
      lowercased first\<close>
  "chr_eq ignorecase a c = (if ignorecase then lower_char a = lower_char c else a = c)"

fun in_cc :: "cc \<Rightarrow> char \<Rightarrow> bool" where
  "in_cc Space c = isspace c"
| "in_cc (OneOf cs) c = (c \<in> set cs)"

fun star_cc :: "(char \<Rightarrow> bool) \<Rightarrow> (mstate \<Rightarrow> mstate option) \<Rightarrow> mstate \<Rightarrow> mstate option" where
  \<comment> \<open>greedy repetition: one more character first, the continuation here if that fails\<close>
  "star_cc p k (prev, [], g) = k (prev, [], g)"
| "star_cc p k (prev, c # cs, g) =
     (if p c
      then (case star_cc p k (Some c, cs, g) of
              Some r \<Rightarrow> Some r
            | None \<Rightarrow> k (prev, c # cs, g))
      else k (prev, c # cs, g))"

fun re_match :: "bool \<Rightarrow> re \<Rightarrow> (mstate \<Rightarrow> mstate option) \<Rightarrow> mstate \<Rightarrow> mstate option" where
  "re_match ic Eps k st = k st"
| "re_match ic (Chr a) k (prev, rest, g) =
     (case rest of
        [] \<Rightarrow> None
      | c # cs \<Rightarrow> if chr_eq ic a c then k (Some c, cs, g) else None)"
| "re_match ic (Cls cl) k (prev, rest, g) =
     (case rest of
        [] \<Rightarrow> None
      | c # cs \<Rightarrow> if in_cc cl c then k (Some c, cs, g) else None)"
| "re_match ic (Star cl) k st = star_cc (in_cc cl) k st"
| "re_match ic (Plus cl) k (prev, rest, g) =
     (case rest of
        [] \<Rightarrow> None
      | c # cs \<Rightarrow> if in_cc cl c then star_cc (in_cc cl) k (Some c, cs, g) else None)"
| "re_match ic WordB k (prev, rest, g) =
     (if is_boundary prev rest then k (prev, rest, g) else None)"
| "re_match ic (Then a b) k st = re_match ic a (\<lambda>st'. re_match ic b k st') st"
| "re_match ic (Or a b) k st =
     (case re_match ic a k st of
        Some r \<Rightarrow> Some r
      | None \<Rightarrow> re_match ic b k st)"
| "re_match ic (Group a) k (prev, rest, g) =
     re_match ic a
       (\<lambda>(prev', rest', g'). k (prev', rest', Some (take (length rest - length rest') rest)))
       (prev, rest, g)"

text \<open>
  A replacement template is a list of pieces: literal text and \<open>\1\<close>. \<open>sub_from\<close> is
  \<open>pattern.sub(repl, s)\<close> from a position on: it tries a match at the position; after a
  match that consumed text it writes the replacement and goes on behind the match;
  otherwise it copies one character and goes on behind it, after the replacement if the
  pattern matched the empty string there.
\<close>

datatype piece = Txt string | G1

fun expand :: "piece list \<Rightarrow> string option \<Rightarrow> string" where
  "expand [] g = []"
| "expand (Txt s # ps) g = s @ expand ps g"
| "expand (G1 # ps) g = (case g of None \<Rightarrow> [] | Some s \<Rightarrow> s) @ expand ps g"

function sub_from :: "bool \<Rightarrow> re \<Rightarrow> piece list \<Rightarrow> char option \<Rightarrow> string \<Rightarrow> string" where
  "sub_from ic r repl prev s =
     (case re_match ic r Some (prev, s, None) of
        Some (prev', rest, g) \<Rightarrow>
          if length rest < length s then expand repl g @ sub_from ic r repl prev' rest
          else expand repl g
               @ (case s of [] \<Rightarrow> [] | c # cs \<Rightarrow> c # sub_from ic r repl (Some c) cs)
      | None \<Rightarrow> (case s of [] \<Rightarrow> [] | c # cs \<Rightarrow> c # sub_from ic r repl (Some c) cs))"
  by pat_completeness auto
termination
  by (relation "measure (\<lambda>(ic, r, repl, prev, s). length s)") auto

declare sub_from.simps [simp del]

definition re_sub :: "bool \<Rightarrow> re \<Rightarrow> piece list \<Rightarrow> string \<Rightarrow> string" where
  \<comment> \<open>\<open>re.sub(pattern, repl, s)\<close>; the flag is \<open>re.I\<close>\<close>
  "re_sub ic r repl s = sub_from ic r repl None s"

subsection \<open>The rule tables\<close>

fun lit :: "string \<Rightarrow> re" where
  \<comment> \<open>a phrase of the pattern, character by character\<close>
  "lit [] = Eps"
| "lit (c # cs) = Then (Chr c) (lit cs)"

fun alts :: "re list \<Rightarrow> re" where
  \<comment> \<open>\<open>a|b|c\<close>; no pattern of the module has an empty alternation, which matches nothing\<close>
  "alts [] = Cls (OneOf [])"
| "alts [r] = r"
| "alts (r # r' # rs) = Or r (alts (r' # rs))"

fun join_re :: "re \<Rightarrow> re list \<Rightarrow> re" where
  \<comment> \<open>\<open>sep.join(parts)\<close> on pattern sources\<close>
  "join_re sep [] = Eps"
| "join_re sep [r] = r"
| "join_re sep (r # r' # rs) = Then r (Then sep (join_re sep (r' # rs)))"

definition words :: "string list \<Rightarrow> re" where
  \<comment> \<open>\<open>re.compile(r"\b(w1|w2|...)\b", re.I)\<close>\<close>
  "words ws = Then WordB (Then (Group (alts (map lit ws))) WordB)"

definition PUNCT_PATTERNS :: "(re \<times> string) list" where
  \<comment> \<open>\<open>_PUNCT_PATTERNS\<close>. The replacements are given as \<open>re\<close> expands them: the template
      \<open>r"\\"\<close> is one backslash, \<open>"\n"\<close> is the newline character.\<close>
  "PUNCT_PATTERNS =
     [(words [''hash'', ''pound'', ''number sign''], ''#''),
      (words [''dollar'', ''dollar sign''], ''$''),
      (words [''ampersand'', ''and sign''], ''&''),
      (words [''dot'', ''period'', ''full stop''], ''.''),
      (words [''comma''], '',''),
      (words [''semicolon''], '';''),
      (words [''colon''], '':''),
      (words [''underscore'', ''under score''], ''_''),
      (words [''dash'', ''hyphen'', ''minus''], ''-''),
      (words [''plus'', ''add'', ''plus sign''], ''+''),
      (words [''slash'', ''forward slash''], ''/''),
      (words [''backslash'', ''back slash''], [CHR 0x5C]),
      (words [''star'', ''asterisk''], ''*''),
      (words [''percent'', ''percentage''], ''%''),
      (words [''equal'', ''equals'', ''equal to''], ''=''),
      (words [''greater than''], ''>''),
      (words [''less than''], ''<''),
      (words [''pipe'', ''vertical bar''], ''|''),
      (words [''caret''], ''^''),
      (words [''at'', ''at the rate''], ''@''),
      (words [''exclamation'', ''bang'', ''exclamation mark''], ''!''),
      (words [''question mark'', ''question''], ''?''),
      (words [''quote'', ''double quote''], [CHR 0x22]),
      (words [''single quote'', ''apostrophe''], [CHR 0x27]),
      (words [''open parenthesis'', ''open bracket'', ''left parenthesis''], ''(''),
      (words [''close parenthesis'', ''close bracket'', ''right parenthesis''], '')''),
      (words [''open brace'', ''left brace''], ''{''),
      (words [''close brace'', ''right brace''], ''}''),
      (words [''open square bracket'', ''left square bracket''], ''[''),
      (words [''close square bracket'', ''right square bracket''], '']''),
      (words [''space'', ''blank''], '' ''),
      (words [''new line'', ''newline''], [CHR 0x0A])]"

definition EXTENSION_VARIANTS :: "(string \<times> string list) list" where
  \<comment> \<open>\<open>_EXTENSION_VARIANTS\<close>, in the order of the dictionary\<close>
  "EXTENSION_VARIANTS =
     [(''txt'', [''t x t'', ''txt'']),
      (''py'', [''p y'', ''py'']),
      (''c'', [''c'']),
      (''cpp'', [''c p p'', ''cpp'', ''c plus plus''])]"

definition dot_ext_pattern :: "string \<Rightarrow> re" where
  \<comment> \<open>\<open>re.compile(r"\bdot\s+" + r"\s*".join(map(re.escape, variant.split())) + r"\b", re.I)\<close>;
      \<open>re.escape\<close> leaves the letters of the variants as they are\<close>
  "dot_ext_pattern variant =
     Then WordB
       (Then (lit ''dot'')
          (Then (Plus Space)
             (Then (join_re (Star Space) (map lit (split_ws variant))) WordB)))"

definition DOT_EXT_PATTERNS :: "(re \<times> string) list" where
  \<comment> \<open>\<open>_DOT_EXT_PATTERNS\<close>, as the loop at import time builds it\<close>
  "DOT_EXT_PATTERNS =
     concat (map (\<lambda>(ext, variants).
                    map (\<lambda>variant. (dot_ext_pattern variant, ''.'' @ ext)) variants)
               EXTENSION_VARIANTS)"

subsection \<open>\<open>normalize_pronounced_punctuation\<close>\<close>

definition apply_rules :: "(re \<times> string) list \<Rightarrow> string \<Rightarrow> string" where
  \<comment> \<open>\<open>for pattern, repl in rules: normalized = pattern.sub(repl, normalized)\<close>\<close>
  "apply_rules rules normalized =
     foldl (\<lambda>s (pattern, repl). re_sub True pattern [Txt repl] s) normalized rules"

definition around :: "re \<Rightarrow> re" where
  \<comment> \<open>\<open>\s*\<close> on both sides of a pattern\<close>
  "around r = Then (Star Space) (Then r (Star Space))"

definition tighten_symbols :: "string \<Rightarrow> string" where
  \<comment> \<open>step 3: \<open>re.sub(r"\s*([/\\\.\-\+\*%=&\|\^#@!\?,:;])\s*", r"\1", normalized)\<close>\<close>
  "tighten_symbols normalized =
     re_sub False (around (Group (Cls (OneOf (''/'' @ [CHR 0x5C] @ ''.-+*%=&|^#@!?,:;'')))))
       [G1] normalized"

definition tighten_brackets :: "string \<Rightarrow> string" where
  \<comment> \<open>step 4: the six substitutions around brackets and braces\<close>
  "tighten_brackets normalized =
     (let normalized = re_sub False (around (Chr (CHR ''(''))) [Txt ''(''] normalized;
          normalized = re_sub False (around (Chr (CHR '')''))) [Txt '')''] normalized;
          normalized = re_sub False (around (Chr (CHR ''[''))) [Txt ''[''] normalized;
          normalized = re_sub False (around (Chr (CHR '']''))) [Txt '']''] normalized;
          normalized = re_sub False (around (Chr (CHR ''{''))) [Txt ''{''] normalized;
          normalized = re_sub False (around (Chr (CHR ''}''))) [Txt ''}''] normalized
      in normalized)"

definition collapse_spaces :: "string \<Rightarrow> string" where
  \<comment> \<open>step 5: \<open>re.sub(r"[ \t]+", " ", normalized)\<close>\<close>
  "collapse_spaces normalized =
     re_sub False (Plus (OneOf [CHR '' '', CHR 0x09])) [Txt '' ''] normalized"

definition space_operators :: "string \<Rightarrow> string" where
  \<comment> \<open>\<open>re.sub(r"\s*([+\-*/%=&|^<>])\s*", r" \1 ", normalized)\<close>\<close>
  "space_operators normalized =
     re_sub False (around (Group (Cls (OneOf ''+-*/%=&|^<>''))))
       [Txt '' '', G1, Txt '' ''] normalized"

definition collapse_whitespace :: "string \<Rightarrow> string" where
  \<comment> \<open>\<open>re.sub(r"\s+", " ", normalized)\<close>\<close>
  "collapse_whitespace normalized = re_sub False (Plus Space) [Txt '' ''] normalized"

definition tighten_punctuation :: "string \<Rightarrow> string" where
  \<comment> \<open>\<open>re.sub(r"\s*([.,?!])", r"\1", normalized)\<close>\<close>
  "tighten_punctuation normalized =
     re_sub False (Then (Star Space) (Group (Cls (OneOf ''.,?!'')))) [G1] normalized"

definition normalize_pronounced_punctuation :: "string \<Rightarrow> string" where
  "normalize_pronounced_punctuation text =
     (let normalized = text;
          normalized = apply_rules DOT_EXT_PATTERNS normalized;
          normalized = apply_rules PUNCT_PATTERNS normalized;
          normalized = tighten_symbols normalized;
          normalized = tighten_brackets normalized;
          normalized = collapse_spaces normalized;
          normalized = space_operators normalized;
          normalized = collapse_whitespace normalized;
          normalized = tighten_punctuation normalized;
          normalized = strip normalized
      in strip normalized)"

section \<open>Properties of the text chunker\<close>

subsection \<open>Splitting and trimming\<close>

lemma split_acc_shape: "split_acc sep acc s = (acc @ hd (split_acc sep [] s)) # tl (split_acc sep [] s)"
proof (induction s arbitrary: acc)
  case Nil
  show ?case by simp
next
  case (Cons c cs)
  show ?case
  proof (cases "c = sep")
    case True
    then show ?thesis by simp
  next
    case False
    have "split_acc sep (acc @ [c]) cs = ((acc @ [c]) @ hd (split_acc sep [] cs)) # tl (split_acc sep [] cs)"
      by (rule Cons.IH)
    moreover have "split_acc sep [c] cs = ([c] @ hd (split_acc sep [] cs)) # tl (split_acc sep [] cs)"
      using Cons.IH [of "[c]"] by simp
    ultimately show ?thesis using False by simp
  qed
qed

lemma split_on_Nil: "split_on sep [] = [[]]"
  by (simp add: split_on_def)

lemma split_on_Cons:
  "split_on sep (c # cs) =
     (if c = sep then [] # split_on sep cs
      else (c # hd (split_on sep cs)) # tl (split_on sep cs))"
  using split_acc_shape [of sep "[c]" cs] by (simp add: split_on_def)

lemma split_on_not_Nil: "split_on sep s \<noteq> []"
  by (cases s) (simp_all add: split_on_Nil split_on_Cons)

lemma split_on_no_sep: "sep \<notin> set s \<Longrightarrow> split_on sep s = [s]"
  by (induction s) (auto simp: split_on_Nil split_on_Cons)

lemma split_on_append_sep:
  "sep \<notin> set s \<Longrightarrow> split_on sep (s @ sep # t) = s # split_on sep t"
  by (induction s) (auto simp: split_on_Cons)

lemma split_on_fragment_no_sep: "f \<in> set (split_on sep s) \<Longrightarrow> sep \<notin> set f"
proof (induction s arbitrary: f)
  case Nil
  then show ?case by (simp add: split_on_Nil)
next
  case (Cons c cs)
  have ne: "split_on sep cs \<noteq> []" by (rule split_on_not_Nil)
  then obtain g gs where g: "split_on sep cs = g # gs" by (cases "split_on sep cs") auto
  show ?case using Cons g by (auto simp: split_on_Cons split: if_splits)
qed

lemma split_on_append_tail:
  "sep \<notin> set ws \<Longrightarrow>
   split_on sep (s @ ws) = butlast (split_on sep s) @ [last (split_on sep s) @ ws]"
proof (induction s)
  case Nil
  then show ?case by (simp add: split_on_Nil split_on_no_sep)
next
  case (Cons c cs)
  obtain g gs where g: "split_on sep cs = g # gs"
    using split_on_not_Nil [of sep cs] by (cases "split_on sep cs") auto
  show ?case using Cons g by (auto simp: split_on_Cons)
qed

lemma split_on_append_head:
  "sep \<notin> set ws \<Longrightarrow>
   split_on sep (ws @ s) = (ws @ hd (split_on sep s)) # tl (split_on sep s)"
proof (induction ws)
  case Nil
  show ?case using split_on_not_Nil [of sep s] by simp
next
  case (Cons a ws)
  then show ?case by (auto simp: split_on_Cons)
qed


subsection \<open>Trimming\<close>

lemma strip_Nil: "strip [] = []"
  by (simp add: strip_def)

lemma set_strip: "set (strip s) \<subseteq> set s"
proof -
  have "set (strip s) \<subseteq> set (dropWhile isspace s)"
    unfolding strip_def using set_dropWhileD [of _ isspace "rev (dropWhile isspace s)"] by auto
  then show ?thesis using set_dropWhileD [of _ isspace s] by auto
qed

lemma dropWhile_all_space: "\<forall>c\<in>set s. isspace c \<Longrightarrow> dropWhile isspace s = []"
  by (simp add: dropWhile_eq_Nil_conv)

lemma dropWhile_space_prefix:
  "\<forall>c\<in>set ws. isspace c \<Longrightarrow> dropWhile isspace (ws @ s) = dropWhile isspace s"
  by (induction ws) auto

lemma strip_all_space: "\<forall>c\<in>set s. isspace c \<Longrightarrow> strip s = []"
  by (simp add: strip_def dropWhile_all_space)

lemma strip_space_prefix: "\<forall>c\<in>set ws. isspace c \<Longrightarrow> strip (ws @ s) = strip s"
  by (simp add: strip_def dropWhile_space_prefix)

lemma strip_space_suffix:
  assumes "\<forall>c\<in>set ws. isspace c"
  shows "strip (s @ ws) = strip s"
proof (cases "\<forall>c\<in>set s. isspace c")
  case True
  with assms have "\<forall>c\<in>set (s @ ws). isspace c" by auto
  then have "strip (s @ ws) = []" by (rule strip_all_space)
  moreover have "strip s = []" using True by (rule strip_all_space)
  ultimately show ?thesis by simp
next
  case False
  then have "dropWhile isspace (s @ ws) = dropWhile isspace s @ ws"
    by (auto simp: dropWhile_append1)
  moreover have "dropWhile isspace (rev ws @ rev (dropWhile isspace s))
      = dropWhile isspace (rev (dropWhile isspace s))"
    using assms by (intro dropWhile_space_prefix) simp
  ultimately show ?thesis by (simp add: strip_def)
qed

lemma strip_decompose:
  "\<exists>ws1 ws2. s = ws1 @ strip s @ ws2 \<and> (\<forall>c\<in>set ws1. isspace c) \<and> (\<forall>c\<in>set ws2. isspace c)"
proof -
  let ?y = "dropWhile isspace s"
  have 1: "s = takeWhile isspace s @ ?y" by simp
  have 2: "rev ?y = takeWhile isspace (rev ?y) @ dropWhile isspace (rev ?y)" by simp
  have "?y = rev (dropWhile isspace (rev ?y)) @ rev (takeWhile isspace (rev ?y))"
    by (metis rev_append rev_rev_ident takeWhile_dropWhile_id)
  then have 3: "?y = strip s @ rev (takeWhile isspace (rev ?y))"
    by (simp add: strip_def)
  have "s = takeWhile isspace s @ strip s @ rev (takeWhile isspace (rev ?y))"
    using 1 3 by metis
  moreover have "\<forall>c\<in>set (takeWhile isspace s). isspace c"
    by (auto dest: set_takeWhileD)
  moreover have "\<forall>c\<in>set (rev (takeWhile isspace (rev ?y))). isspace c"
    by (auto dest: set_takeWhileD)
  ultimately show ?thesis by blast
qed

lemma strip_idem: "strip (strip s) = strip s"
proof -
  obtain ws1 ws2 where d: "s = ws1 @ strip s @ ws2"
    and w1: "\<forall>c\<in>set ws1. isspace c" and w2: "\<forall>c\<in>set ws2. isspace c"
    using strip_decompose by blast
  have "strip s = strip (ws1 @ (strip s @ ws2))" using d by simp
  also have "\<dots> = strip (strip s @ ws2)" using w1 by (rule strip_space_prefix)
  also have "\<dots> = strip (strip s)" using w2 by (rule strip_space_suffix)
  finally show ?thesis by simp
qed

lemma strip_map:
  assumes "\<And>c. isspace (f c) = isspace c"
  shows "strip (map f s) = map f (strip s)"
proof -
  have "isspace \<circ> f = isspace" using assms by auto
  then show ?thesis by (simp add: strip_def dropWhile_map rev_map)
qed


subsection \<open>Sentences of a sealed chunk and of the loop\<close>

lemma dot_not_space: "\<forall>c\<in>set ws. isspace c \<Longrightarrow> CHR ''.'' \<notin> set ws"
  by (auto simp: isspace_def)

lemma map_strip_split_space_prefix:
  assumes "\<forall>c\<in>set ws. isspace c"
  shows "map strip (split_on (CHR ''.'') (ws @ v)) = map strip (split_on (CHR ''.'') v)"
proof -
  obtain g gs where g: "split_on (CHR ''.'') v = g # gs"
    using split_on_not_Nil [of "CHR ''.''" v] by (cases "split_on (CHR ''.'') v") auto
  have "split_on (CHR ''.'') (ws @ v) = (ws @ g) # gs"
    using split_on_append_head [OF dot_not_space [OF assms], of v] g by simp
  then show ?thesis using g assms by (simp add: strip_space_prefix)
qed

lemma map_strip_split_space_suffix:
  assumes "\<forall>c\<in>set ws. isspace c"
  shows "map strip (split_on (CHR ''.'') (v @ ws)) = map strip (split_on (CHR ''.'') v)"
proof -
  let ?Y = "split_on (CHR ''.'') v"
  have ne: "?Y \<noteq> []" by (rule split_on_not_Nil)
  have "split_on (CHR ''.'') (v @ ws) = butlast ?Y @ [last ?Y @ ws]"
    using split_on_append_tail [OF dot_not_space [OF assms]] .
  then have "map strip (split_on (CHR ''.'') (v @ ws)) = map strip (butlast ?Y) @ [strip (last ?Y)]"
    using assms by (simp add: strip_space_suffix)
  also have "\<dots> = map strip (butlast ?Y @ [last ?Y])" by simp
  also have "\<dots> = map strip ?Y" using ne by simp
  finally show ?thesis .
qed

lemma fragments_strip: "fragments (strip t) = fragments t"
proof -
  obtain ws1 ws2 where d: "t = ws1 @ strip t @ ws2"
    and w1: "\<forall>c\<in>set ws1. isspace c" and w2: "\<forall>c\<in>set ws2. isspace c"
    using strip_decompose by blast
  have "map strip (split_on (CHR ''.'') t) = map strip (split_on (CHR ''.'') (ws1 @ (strip t @ ws2)))"
    using d by simp
  also have "\<dots> = map strip (split_on (CHR ''.'') (strip t @ ws2))"
    using w1 by (rule map_strip_split_space_prefix)
  also have "\<dots> = map strip (split_on (CHR ''.'') (strip t))"
    using w2 by (rule map_strip_split_space_suffix)
  finally show ?thesis by (simp add: fragments_def)
qed

lemma split_join_clean:
  "\<forall>x\<in>set cur. clean x \<Longrightarrow> cur \<noteq> [] \<Longrightarrow> \<forall>c\<in>set ws. isspace c \<Longrightarrow>
   map strip (split_on (CHR ''.'') (ws @ join ''. '' cur @ ''.'')) = cur @ [[]]"
proof (induction "''. ''" cur arbitrary: ws rule: join.induct)
  case 1
  then show ?case by simp
next
  case (2 x)
  then have nd: "CHR ''.'' \<notin> set (ws @ x)" and sx: "strip x = x"
    using dot_not_space [of ws] by (auto simp: clean_def)
  have "split_on (CHR ''.'') ((ws @ x) @ CHR ''.'' # []) = (ws @ x) # split_on (CHR ''.'') []"
    using nd by (rule split_on_append_sep)
  then show ?case using 2 sx by (simp add: split_on_Nil strip_space_prefix strip_Nil)
next
  case (3 x y ys)
  then have nd: "CHR ''.'' \<notin> set (ws @ x)" and sx: "strip x = x"
    using dot_not_space [of ws] by (auto simp: clean_def)
  have sp: "\<forall>c\<in>set '' ''. isspace c" by (simp add: isspace_def)
  have "split_on (CHR ''.'') ((ws @ x) @ CHR ''.'' # ('' '' @ join ''. '' (y # ys) @ ''.''))
        = (ws @ x) # split_on (CHR ''.'') ('' '' @ join ''. '' (y # ys) @ ''.'')"
    using nd by (rule split_on_append_sep)
  moreover have "map strip (split_on (CHR ''.'') ('' '' @ join ''. '' (y # ys) @ ''.'')) = (y # ys) @ [[]]"
    using 3(1) [of "'' ''"] 3(2) sp by simp
  ultimately show ?case using 3(4) sx by (simp add: strip_space_prefix)
qed

lemma fragments_seal: "\<forall>x\<in>set cur. clean x \<Longrightarrow> fragments (seal cur) = cur"
proof (cases "cur = []")
  case True
  then show ?thesis
    by (simp add: fragments_def seal_def split_on_def strip_def)
next
  case False
  assume c: "\<forall>x\<in>set cur. clean x"
  have "map strip (split_on (CHR ''.'') ([] @ join ''. '' cur @ ''.'')) = cur @ [[]]"
    using c False by (intro split_join_clean) simp_all
  then show ?thesis using c by (auto simp: fragments_def seal_def clean_def filter_id_conv)
qed

lemma clean_strip:
  assumes "CHR ''.'' \<notin> set raw" "strip raw \<noteq> []"
  shows "clean (strip raw)"
  using assms set_strip [of raw] by (auto simp: clean_def strip_idem)

lemma chunk_loop_fragments:
  "\<forall>x\<in>set current. clean x \<Longrightarrow> \<forall>r\<in>set raws. CHR ''.'' \<notin> set r \<Longrightarrow>
   chunk_loop m chunks current raws = (chunks', current') \<Longrightarrow>
   (\<forall>x\<in>set current'. clean x) \<and>
   rejoin chunks' @ current' = rejoin chunks @ current @ filter (\<lambda>f. f \<noteq> []) (map strip raws)"
proof (induction raws arbitrary: chunks current)
  case Nil
  then show ?case by simp
next
  case (Cons raw rest)
  show ?case
  proof (cases "strip raw = []")
    case True
    then have "chunk_loop m chunks current rest = (chunks', current')"
      using Cons.prems(3) by simp
    from Cons.IH [OF Cons.prems(1) _ this] Cons.prems(2) True show ?thesis by simp
  next
    case False
    have cl: "clean (strip raw)" using Cons.prems(2) False by (simp add: clean_strip)
    show ?thesis
    proof (cases "int (length (strip (join ''. '' (current @ [strip raw])))) \<le> m")
      case True
      then have run: "chunk_loop m chunks (current @ [strip raw]) rest = (chunks', current')"
        using Cons.prems(3) False by (simp add: Let_def)
      have "\<forall>x\<in>set (current @ [strip raw]). clean x" using Cons.prems(1) cl by simp
      from Cons.IH [OF this _ run] Cons.prems(2) False show ?thesis by simp
    next
      case over: False
      let ?chunks = "if current \<noteq> [] then chunks @ [seal current] else chunks"
      have run: "chunk_loop m ?chunks [strip raw] rest = (chunks', current')"
        using Cons.prems(3) False over by (simp add: Let_def)
      have "\<forall>x\<in>set [strip raw]. clean x" using cl by simp
      from Cons.IH [OF this _ run] Cons.prems(2)
      have c': "\<forall>x\<in>set current'. clean x"
        and eq: "rejoin chunks' @ current'
                 = rejoin ?chunks @ [strip raw] @ filter (\<lambda>f. f \<noteq> []) (map strip rest)"
        by simp_all
      have "rejoin ?chunks = rejoin chunks @ current"
        using fragments_seal [OF Cons.prems(1)] by (simp add: rejoin_def)
      then show ?thesis using c' eq False by simp
    qed
  qed
qed

lemma space_replace_char:
  "\<not> isspace a \<Longrightarrow> \<not> isspace b \<Longrightarrow> strip (replace_char a b s) = replace_char a b (strip s)"
  unfolding replace_char_def by (rule strip_map) auto

subsection \<open>The claims\<close>

text \<open>
  Claim C4. When the trimmed text is longer than \<open>max_chunk_len\<close>, the sentences read
  back from the chunks (each chunk split at periods, the fragments trimmed, the empty
  ones dropped, the chunks taken in order) are exactly the non-empty trimmed sentences
  of the original text, split at \<open>.\<close>, \<open>?\<close> and \<open>!\<close>, in the original order.
\<close>

theorem chunk_text_sentences:
  assumes "int (length (strip text)) > max_chunk_len"
  shows "rejoin (chunk_text max_chunk_len text) = sentences text"
proof -
  let ?norm = "\<lambda>t. replace_char (CHR ''!'') (CHR ''.'') (replace_char (CHR ''?'') (CHR ''.'') t)"
  let ?raws = "split_on (CHR ''.'') (?norm (strip text))"
  obtain chunks current where run: "chunk_loop max_chunk_len [] [] ?raws = (chunks, current)"
    by (cases "chunk_loop max_chunk_len [] [] ?raws") auto
  have nodot: "\<forall>r\<in>set ?raws. CHR ''.'' \<notin> set r"
    using split_on_fragment_no_sep by blast
  have inv: "(\<forall>x\<in>set current. clean x) \<and>
             rejoin chunks @ current = rejoin [] @ [] @ filter (\<lambda>f. f \<noteq> []) (map strip ?raws)"
    using nodot run by (intro chunk_loop_fragments [where chunks = "[]" and current = "[]"]) simp_all
  have res: "chunk_text max_chunk_len text
             = (if current \<noteq> [] then chunks @ [seal current] else chunks)"
    using assms run by (simp add: chunk_text_def)
  have cl: "\<forall>x\<in>set current. clean x" using inv by blast
  have "rejoin (chunk_text max_chunk_len text) = rejoin chunks @ current"
    using res fragments_seal [OF cl] by (cases "current = []") (simp_all add: rejoin_def)
  also have "\<dots> = fragments (?norm (strip text))"
    using inv by (simp add: rejoin_def fragments_def)
  also have "?norm (strip text) = strip (?norm text)"
    by (simp add: space_replace_char isspace_def)
  also have "fragments (strip (?norm text)) = sentences text"
    by (simp add: fragments_strip sentences_def)
  finally show ?thesis .
qed


theorem chunk_text_sentences_witness:
  "int (length (strip '' ab. cd? efg! '')) > 6
   \<and> rejoin (chunk_text 6 '' ab. cd? efg! '') = sentences '' ab. cd? efg! ''
   \<and> sentences '' ab. cd? efg! '' = [''ab'', ''cd'', ''efg'']"
proof -
  have h: "int (length (strip '' ab. cd? efg! '')) > 6"
    by (simp add: strip_def isspace_def)
  have s: "sentences '' ab. cd? efg! '' = [''ab'', ''cd'', ''efg'']"
    by (simp add: sentences_def fragments_def split_on_def strip_def isspace_def replace_char_def)
  show ?thesis
    using h s chunk_text_sentences [OF h] by simp
qed

text \<open>
  Claim C7. When the trimmed text is no longer than \<open>max_chunk_len\<close>, \<open>_chunk_text\<close>
  returns the list whose only element is the trimmed text.
\<close>

theorem chunk_text_short:
  "int (length (strip text)) \<le> max_chunk_len \<Longrightarrow> chunk_text max_chunk_len text = [strip text]"
  by (simp add: chunk_text_def)

theorem chunk_text_short_witness:
  "int (length (strip ''  hi there. ok? '')) \<le> 400
   \<and> chunk_text 400 ''  hi there. ok? '' = [strip ''  hi there. ok? '']
   \<and> strip ''  hi there. ok? '' = ''hi there. ok?''"
proof -
  have h: "int (length (strip ''  hi there. ok? '')) \<le> 400"
    by (simp add: strip_def isspace_def)
  have s: "strip ''  hi there. ok? '' = ''hi there. ok?''"
    by (simp add: strip_def isspace_def)
  show ?thesis
    using h s chunk_text_short [OF h] by simp
qed

text \<open>
  Claim C1, at an input where it fails. With \<open>max_chunk_len = 6\<close> the text
  \<open>ab. cd. efg\<close> is longer than the limit; the candidate \<open>ab. cd\<close> has length 6 and is
  accepted, and the chunk sealed from it, \<open>ab. cd.\<close>, has length 7: it is longer than
  the limit and it holds two sentences, neither of which exceeds the limit.
\<close>

theorem chunk_text_sealed_chunk_exceeds_limit:
  "chunk_text 6 ''ab. cd. efg'' = [''ab. cd.'', ''efg.'']
   \<and> int (length (''ab. cd.'')) = 7"
  by (simp add: chunk_text_def split_on_def strip_def isspace_def replace_char_def seal_def)

text \<open>
  The bound the code does keep: a chunk exceeds the limit by at most the period that
  seals it, unless it is a single sentence that is itself longer than the limit.
\<close>

lemma dropWhile_keeps:
  "xs \<noteq> [] \<Longrightarrow> \<not> P (hd xs) \<Longrightarrow> dropWhile P xs = xs"
  by (cases xs) auto

lemma dropWhile_shrinks:
  "xs \<noteq> [] \<Longrightarrow> P (hd xs) \<Longrightarrow> length (dropWhile P xs) < length xs"
  by (cases xs) (auto simp: le_imp_less_Suc length_dropWhile_le)

lemma strip_fixed:
  assumes "s \<noteq> []" "\<not> isspace (hd s)" "\<not> isspace (last s)"
  shows "strip s = s"
proof -
  have 1: "dropWhile isspace s = s" using assms(1,2) by (rule dropWhile_keeps)
  have "rev s \<noteq> []" "\<not> isspace (hd (rev s))" using assms(1,3) by (simp_all add: hd_rev)
  then have 2: "dropWhile isspace (rev s) = rev s" by (rule dropWhile_keeps)
  show ?thesis by (simp add: strip_def 1 2)
qed

lemma strip_fixed_ends:
  assumes "strip s = s" "s \<noteq> []"
  shows "\<not> isspace (hd s) \<and> \<not> isspace (last s)"
proof -
  have len: "length (strip s) \<le> length (dropWhile isspace s)"
    unfolding strip_def using length_dropWhile_le [of isspace "rev (dropWhile isspace s)"] by simp
  have h: "\<not> isspace (hd s)"
  proof
    assume "isspace (hd s)"
    then have "length (dropWhile isspace s) < length s"
      using assms(2) by (intro dropWhile_shrinks)
    then show False using len assms(1) by simp
  qed
  then have d: "dropWhile isspace s = s" using assms(2) by (intro dropWhile_keeps)
  have l: "\<not> isspace (last s)"
  proof
    assume "isspace (last s)"
    then have "rev s \<noteq> []" "isspace (hd (rev s))" using assms(2) by (simp_all add: hd_rev)
    then have "length (dropWhile isspace (rev s)) < length (rev s)"
      by (rule dropWhile_shrinks)
    then have "length (strip s) < length s"
      by (simp add: strip_def d)
    then show False using assms(1) by simp
  qed
  from h l show ?thesis by simp
qed

lemma join_ends:
  "cur \<noteq> [] \<Longrightarrow> \<forall>x\<in>set cur. x \<noteq> [] \<Longrightarrow>
   join sep cur \<noteq> [] \<and> hd (join sep cur) = hd (hd cur) \<and> last (join sep cur) = last (last cur)"
  by (induction sep cur rule: join.induct) auto

lemma strip_join_clean:
  assumes "\<forall>x\<in>set cur. clean x"
  shows "strip (join ''. '' cur) = join ''. '' cur"
proof (cases "cur = []")
  case True
  then show ?thesis by (simp add: strip_Nil)
next
  case False
  have ne: "\<forall>x\<in>set cur. x \<noteq> []" using assms by (simp add: clean_def)
  have j: "join ''. '' cur \<noteq> []" "hd (join ''. '' cur) = hd (hd cur)"
    "last (join ''. '' cur) = last (last cur)"
    using join_ends [OF False ne] by simp_all
  have "hd cur \<in> set cur" "last cur \<in> set cur" using False by simp_all
  then have "clean (hd cur)" "clean (last cur)" using assms by blast+
  then have "\<not> isspace (hd (hd cur))" "\<not> isspace (last (last cur))"
    using strip_fixed_ends by (simp_all add: clean_def)
  then show ?thesis using j by (intro strip_fixed) simp_all
qed

lemma within_limit_seal: "current_ok m cur \<Longrightarrow> cur \<noteq> [] \<Longrightarrow> within_limit m (seal cur)"
  by (auto simp: current_ok_def within_limit_def seal_def)

lemma chunk_loop_within_limit:
  "current_ok m current \<Longrightarrow> \<forall>c\<in>set chunks. within_limit m c \<Longrightarrow>
   \<forall>r\<in>set raws. CHR ''.'' \<notin> set r \<Longrightarrow>
   chunk_loop m chunks current raws = (chunks', current') \<Longrightarrow>
   current_ok m current' \<and> (\<forall>c\<in>set chunks'. within_limit m c)"
proof (induction raws arbitrary: chunks current)
  case Nil
  then show ?case by simp
next
  case (Cons raw rest)
  have rest: "\<forall>r\<in>set rest. CHR ''.'' \<notin> set r" using Cons.prems(3) by simp
  show ?case
  proof (cases "strip raw = []")
    case True
    then have "chunk_loop m chunks current rest = (chunks', current')"
      using Cons.prems(4) by simp
    from Cons.IH [OF Cons.prems(1) Cons.prems(2) rest this] show ?thesis .
  next
    case False
    have cl: "clean (strip raw)" using Cons.prems(3) False by (simp add: clean_strip)
    have allc: "\<forall>x\<in>set (current @ [strip raw]). clean x"
      using Cons.prems(1) cl by (simp add: current_ok_def)
    have cand: "strip (join ''. '' (current @ [strip raw])) = join ''. '' (current @ [strip raw])"
      using allc by (rule strip_join_clean)
    show ?thesis
    proof (cases "int (length (join ''. '' (current @ [strip raw]))) \<le> m")
      case True
      then have run: "chunk_loop m chunks (current @ [strip raw]) rest = (chunks', current')"
        using Cons.prems(4) False cand by (simp add: Let_def)
      have "current_ok m (current @ [strip raw])"
        using allc True by (simp add: current_ok_def)
      from Cons.IH [OF this Cons.prems(2) rest run] show ?thesis .
    next
      case over: False
      let ?chunks = "if current \<noteq> [] then chunks @ [seal current] else chunks"
      have run: "chunk_loop m ?chunks [strip raw] rest = (chunks', current')"
        using Cons.prems(4) False over cand by (simp add: Let_def)
      have ok: "current_ok m [strip raw]"
        using cl by (cases "int (length (strip raw)) \<le> m") (simp_all add: current_ok_def)
      have ch: "\<forall>c\<in>set ?chunks. within_limit m c"
        using Cons.prems(2) within_limit_seal [OF Cons.prems(1)] by auto
      from Cons.IH [OF ok ch rest run] show ?thesis .
    qed
  qed
qed

lemma chunk_text_within_limit:
  "c \<in> set (chunk_text max_chunk_len text) \<Longrightarrow> within_limit max_chunk_len c"
proof (cases "int (length (strip text)) \<le> max_chunk_len")
  case True
  assume "c \<in> set (chunk_text max_chunk_len text)"
  then show ?thesis using True by (simp add: chunk_text_def within_limit_def)
next
  case False
  assume c: "c \<in> set (chunk_text max_chunk_len text)"
  let ?raws = "split_on (CHR ''.'') (replace_char (CHR ''!'') (CHR ''.'')
                 (replace_char (CHR ''?'') (CHR ''.'') (strip text)))"
  obtain chunks current where run: "chunk_loop max_chunk_len [] [] ?raws = (chunks, current)"
    by (cases "chunk_loop max_chunk_len [] [] ?raws") auto
  have nodot: "\<forall>r\<in>set ?raws. CHR ''.'' \<notin> set r"
    using split_on_fragment_no_sep by blast
  have "current_ok max_chunk_len []" by (simp add: current_ok_def)
  moreover have "\<forall>c\<in>set []. within_limit max_chunk_len c" by simp
  ultimately have inv: "current_ok max_chunk_len current \<and> (\<forall>c\<in>set chunks. within_limit max_chunk_len c)"
    using nodot run by (rule chunk_loop_within_limit)
  have res: "chunk_text max_chunk_len text
             = (if current \<noteq> [] then chunks @ [seal current] else chunks)"
    using False run by (simp add: chunk_text_def)
  show ?thesis using c inv within_limit_seal [of max_chunk_len current] unfolding res
    by (auto split: if_splits)
qed

subsection \<open>Texts without a sentence\<close>

lemma split_on_fragment_subset: "f \<in> set (split_on sep s) \<Longrightarrow> set f \<subseteq> set s"
proof (induction s arbitrary: f)
  case Nil
  then show ?case by (simp add: split_on_Nil)
next
  case (Cons c cs)
  obtain g gs where g: "split_on sep cs = g # gs"
    using split_on_not_Nil [of sep cs] by (cases "split_on sep cs") auto
  have "set g \<subseteq> set cs" "\<And>h. h \<in> set gs \<Longrightarrow> set h \<subseteq> set cs"
    using Cons.IH g by simp_all
  then show ?case using Cons.prems g by (auto simp: split_on_Cons split: if_splits)
qed

lemma chunk_loop_all_blank:
  "\<forall>r\<in>set raws. strip r = [] \<Longrightarrow> chunk_loop m chunks current raws = (chunks, current)"
  by (induction raws) simp_all

lemma replace_char_set: "c \<in> set (replace_char a b s) \<Longrightarrow> c = b \<or> c \<in> set s"
  by (auto simp: replace_char_def split: if_splits)

lemma replace_char_removes: "a \<noteq> b \<Longrightarrow> a \<notin> set (replace_char a b s)"
  by (auto simp: replace_char_def)

lemma chunk_text_terminators_only:
  assumes t: "terminators_only text" and over: "int (length (strip text)) > m"
  shows "chunk_text m text = []"
proof -
  define norm where
    "norm = replace_char (CHR ''!'') (CHR ''.'') (replace_char (CHR ''?'') (CHR ''.'') (strip text))"
  have k: "d = CHR ''.'' \<or> d = CHR ''?'' \<or> d = CHR ''!'' \<or> isspace d"
    if "d \<in> set (strip text)" for d
  proof -
    have "d \<in> set text" using that set_strip [of "text"] by (rule subsetD [rotated])
    then show ?thesis using t by (simp add: terminators_only_def list_all_iff)
  qed
  have n: "c = CHR ''.'' \<or> isspace c" if "c \<in> set norm" for c
  proof (cases "c = CHR ''.''")
    case True
    then show ?thesis by simp
  next
    case False
    have 1: "c \<noteq> CHR ''!''"
      using that replace_char_removes [of "CHR ''!''" "CHR ''.''"] unfolding norm_def by auto
    have 2: "c \<in> set (replace_char (CHR ''?'') (CHR ''.'') (strip text))"
      using that False replace_char_set [of c "CHR ''!''" "CHR ''.''"] unfolding norm_def by auto
    have 3: "c \<noteq> CHR ''?''"
      using 2 replace_char_removes [of "CHR ''?''" "CHR ''.''"] by auto
    have "c \<in> set (strip text)"
      using 2 False replace_char_set [of c "CHR ''?''" "CHR ''.''"] by auto
    from k [OF this] show ?thesis using 1 3 by simp
  qed
  have "\<forall>r\<in>set (split_on (CHR ''.'') norm). strip r = []"
  proof
    fix r assume r: "r \<in> set (split_on (CHR ''.'') norm)"
    have nodot: "CHR ''.'' \<notin> set r" using r by (rule split_on_fragment_no_sep)
    have sub: "set r \<subseteq> set norm" using r by (rule split_on_fragment_subset)
    have "\<forall>c\<in>set r. isspace c"
    proof
      fix c assume c: "c \<in> set r"
      then have "c \<in> set norm" using sub by (rule subsetD [rotated])
      then have "c = CHR ''.'' \<or> isspace c" by (rule n)
      moreover have "c \<noteq> CHR ''.''" using c nodot by (rule_tac notI) simp
      ultimately show "isspace c" by simp
    qed
    then show "strip r = []" by (rule strip_all_space)
  qed
  then have "chunk_loop m [] [] (split_on (CHR ''.'') norm) = ([], [])"
    by (rule chunk_loop_all_blank)
  then show ?thesis using over unfolding norm_def by (simp add: chunk_text_def)
qed

lemma strip_periods: "strip (replicate n (CHR ''.'')) = replicate n (CHR ''.'')"
proof (cases n)
  case 0
  then show ?thesis by (simp add: strip_Nil)
next
  case (Suc k)
  have "\<not> isspace (CHR ''.'')" by (simp add: isspace_def)
  then show ?thesis using Suc by (intro strip_fixed) (simp_all del: replicate_Suc)
qed

text \<open>
  Claim C9. A non-empty text longer than the limit can be chunked into the empty list.
  Whenever the text consists of sentence terminators and whitespace only and its trimmed
  length is above \<open>max_chunk_len\<close>, every fragment is empty after trimming, all are
  skipped and \<open>_chunk_text\<close> returns the empty list. For every limit a run of periods one
  longer than the limit (a single period for a negative limit) is such a text, and it is
  not empty after trimming.
\<close>

theorem chunk_text_empty_result:
  "(terminators_only text \<and> int (length (strip text)) > max_chunk_len
      \<longrightarrow> chunk_text max_chunk_len text = [])
   \<and> strip (replicate (nat max_chunk_len + 1) (CHR ''.'')) \<noteq> []
   \<and> int (length (strip (replicate (nat max_chunk_len + 1) (CHR ''.'')))) > max_chunk_len
   \<and> chunk_text max_chunk_len (replicate (nat max_chunk_len + 1) (CHR ''.'')) = []"
proof -
  let ?dots = "replicate (nat max_chunk_len + 1) (CHR ''.'')"
  have s: "strip ?dots = ?dots" by (rule strip_periods)
  have ne: "strip ?dots \<noteq> []" unfolding s by simp
  have len: "int (length (strip ?dots)) > max_chunk_len" unfolding s by simp
  have "terminators_only ?dots" by (simp add: terminators_only_def list_all_iff)
  then have "chunk_text max_chunk_len ?dots = []" using len by (rule chunk_text_terminators_only)
  with ne len chunk_text_terminators_only show ?thesis by blast
qed

theorem chunk_text_empty_result_witness:
  "terminators_only ''. ?! ..'' \<and> int (length (strip ''. ?! ..'')) > 2
   \<and> strip ''. ?! ..'' \<noteq> []
   \<and> chunk_text 2 ''. ?! ..'' = []
   \<and> strip ''...'' \<noteq> [] \<and> int (length (strip ''...'')) > 2 \<and> chunk_text 2 ''...'' = []"
proof -
  have h: "terminators_only ''. ?! ..'' \<and> int (length (strip ''. ?! ..'')) > 2"
    by (simp add: terminators_only_def strip_def isspace_def)
  have n: "strip ''. ?! ..'' \<noteq> []"
    by (simp add: strip_def isspace_def)
  have r: "replicate (nat 2 + 1) (CHR ''.'') = ''...''"
    by (simp add: numeral_3_eq_3)
  show ?thesis
    using h n chunk_text_empty_result [of "''. ?! ..''" 2] unfolding r by simp
qed

section \<open>Properties of the website resolver\<close>

text \<open>
  Claim C2, as the code has it. \<open>normalize_word\<close> tests the four endings one after
  another, in the order \<open>.com\<close>, \<open>.in\<close>, \<open>.org\<close>, \<open>.net\<close>, each on what the earlier
  tests left, and strips each one exactly when the word it is tested on ends with it.
  With \<open>w1\<close>, \<open>w2\<close> and \<open>w3\<close> the word after the first, second and third test, every
  step cuts its ending if and only if its test succeeds, and what is cut from the
  cleaned word in all is, read from the left, at most one \<open>.net\<close>, then at most one
  \<open>.org\<close>, then at most one \<open>.in\<close>, then at most one \<open>.com\<close>.
\<close>

theorem normalize_word_suffixes:
  "\<exists>w1 w2 w3.
     word_head w = w1 @ (if endswith (word_head w) ''.com'' then ''.com'' else [])
     \<and> w1 = w2 @ (if endswith w1 ''.in'' then ''.in'' else [])
     \<and> w2 = w3 @ (if endswith w2 ''.org'' then ''.org'' else [])
     \<and> w3 = normalize_word w @ (if endswith w3 ''.net'' then ''.net'' else [])
     \<and> word_head w = normalize_word w
           @ (if endswith w3 ''.net'' then ''.net'' else [])
           @ (if endswith w2 ''.org'' then ''.org'' else [])
           @ (if endswith w1 ''.in'' then ''.in'' else [])
           @ (if endswith (word_head w) ''.com'' then ''.com'' else [])"
proof -
  have step: "v = (if endswith v suf then slice_to_neg (length suf) v else v)
                  @ (if endswith v suf then suf else [])"
    if "suf \<noteq> []" for v suf :: string
  proof (cases "endswith v suf")
    case True
    then have "v = take (length v - length suf) v @ suf"
      by (metis append_take_drop_id endswith_def)
    then show ?thesis using True that by (simp add: slice_to_neg_def)
  next
    case False
    then show ?thesis by simp
  qed
  define w0 where "w0 = word_head w"
  define w1 where "w1 = (if endswith w0 ''.com'' then slice_to_neg (length ''.com'') w0 else w0)"
  define w2 where "w2 = (if endswith w1 ''.in'' then slice_to_neg (length ''.in'') w1 else w1)"
  define w3 where "w3 = (if endswith w2 ''.org'' then slice_to_neg (length ''.org'') w2 else w2)"
  define w4 where "w4 = (if endswith w3 ''.net'' then slice_to_neg (length ''.net'') w3 else w3)"
  have r: "normalize_word w = w4"
    by (simp add: normalize_word_def w4_def w3_def w2_def w1_def w0_def)
  have c: "w0 = w1 @ (if endswith w0 ''.com'' then ''.com'' else [])"
    unfolding w1_def by (rule step) simp
  have i: "w1 = w2 @ (if endswith w1 ''.in'' then ''.in'' else [])"
    unfolding w2_def by (rule step) simp
  have o: "w2 = w3 @ (if endswith w2 ''.org'' then ''.org'' else [])"
    unfolding w3_def by (rule step) simp
  have n: "w3 = w4 @ (if endswith w3 ''.net'' then ''.net'' else [])"
    unfolding w4_def by (rule step) simp
  have chain: "a = e @ u @ z @ y @ x"
    if "a = b @ x" "b = c' @ y" "c' = d @ z" "d = e @ u" for a b c' d e u z y x :: string
    using that by simp
  have all: "w0 = w4 @ (if endswith w3 ''.net'' then ''.net'' else [])
       @ (if endswith w2 ''.org'' then ''.org'' else [])
       @ (if endswith w1 ''.in'' then ''.in'' else [])
       @ (if endswith w0 ''.com'' then ''.com'' else [])"
    by (rule chain [OF c i o n])
  have "word_head w = w1 @ (if endswith (word_head w) ''.com'' then ''.com'' else [])
     \<and> w1 = w2 @ (if endswith w1 ''.in'' then ''.in'' else [])
     \<and> w2 = w3 @ (if endswith w2 ''.org'' then ''.org'' else [])
     \<and> w3 = normalize_word w @ (if endswith w3 ''.net'' then ''.net'' else [])
     \<and> word_head w = normalize_word w
           @ (if endswith w3 ''.net'' then ''.net'' else [])
           @ (if endswith w2 ''.org'' then ''.org'' else [])
           @ (if endswith w1 ''.in'' then ''.in'' else [])
           @ (if endswith (word_head w) ''.com'' then ''.com'' else [])"
    unfolding r w0_def [symmetric] using c i o n all by (intro conjI)
  then show ?thesis by (intro exI)
qed

text \<open>
  The claim as stated fails: \<open>foo.in.com\<close> ends in two stacked endings and loses both,
  since \<open>.com\<close> is tried before \<open>.in\<close>. That the word loses at most one ending says
  that the cleaned word is the result, or the result followed by one ending.
\<close>

theorem normalize_word_two_suffixes_lost:
  "normalize_word ''foo.in.com'' = ''foo''
   \<and> word_head ''foo.in.com'' = normalize_word ''foo.in.com'' @ ''.in'' @ ''.com''
   \<and> \<not> loses_at_most_one_suffix ''foo.in.com''"
  by (simp add: loses_at_most_one_suffix_def normalize_word_def word_head_def strip_def
      isspace_def lower_def lower_char_def strip_chars_def startswith_def endswith_def
      slice_from_def slice_to_neg_def)

text \<open>
  Claim C3, at an input where it fails. Without a success flag \<open>log_to_file\<close> writes
  two spaces between the separator and \<open>DEEP:\<close>, where \<open>append_to_input_file\<close> and the
  branch with a flag write one.
\<close>

theorem log_to_file_without_status_two_spaces:
  "log_to_file ''open youtube'' None ''2024-01-02 03:04:05'' Io_ok
     \<lparr>input_file = [], output_file = [], console = [], stdin = [], browser = []\<rparr>
   = Inr \<lparr>input_file = ''2024-01-02 03:04:05 |  DEEP: open youtube'' @ [CHR 0x0A],
          output_file = [], console = [], stdin = [], browser = []\<rparr>"
  by (simp add: log_to_file_def log_to_file_try_def log_line_def)

lemma log_line_with_status:
  "log_line timestamp message (Some b)
   = timestamp @ '' | DEEP: '' @ message @ '' | '' @ (if b then ''True'' else ''False'') @ [CHR 0x0A]"
  by (simp add: log_line_def str_bool_def)

lemma append_to_input_file_line:
  "append_to_input_file text timestamp Io_ok w
   = Inr (w\<lparr>output_file := output_file w @ timestamp @ '' | DEEP: '' @ text @ [CHR 0x0A]\<rparr>)"
  by (simp add: append_to_input_file_def append_to_input_file_try_def)


section \<open>Properties of the punctuation normalizer\<close>

subsection \<open>What a substitution can write\<close>

lemma in_cc_Space: "in_cc Space = isspace"
  by (rule ext) simp

lemma star_cc_reach:
  "star_cc p k (prev, s, g) = Some res \<Longrightarrow>
   \<exists>prev' s'. set s' \<subseteq> set s \<and> length s' \<le> length s \<and> k (prev', s', g) = Some res"
proof (induction s arbitrary: prev)
  case Nil
  then show ?case by auto
next
  case (Cons c cs)
  show ?case
  proof (cases "p c \<and> star_cc p k (Some c, cs, g) \<noteq> None")
    case True
    then have "star_cc p k (Some c, cs, g) = Some res"
      using Cons.prems by (auto split: option.splits)
    from Cons.IH [OF this] obtain prev' s' where
      "set s' \<subseteq> set cs" "length s' \<le> length cs" "k (prev', s', g) = Some res" by blast
    then have "set s' \<subseteq> set (c # cs) \<and> length s' \<le> length (c # cs) \<and> k (prev', s', g) = Some res"
      by auto
    then show ?thesis by blast
  next
    case False
    then have "k (prev, c # cs, g) = Some res"
      using Cons.prems by (auto split: option.splits if_splits)
    then show ?thesis by blast
  qed
qed

lemma star_cc_total:
  "\<exists>prev' rest. star_cc p Some (prev, s, g) = Some (prev', rest, g)
      \<and> set rest \<subseteq> set s \<and> length rest \<le> length s"
proof (induction s arbitrary: prev)
  case Nil
  show ?case by simp
next
  case (Cons c cs)
  obtain prev' rest where r: "star_cc p Some (Some c, cs, g) = Some (prev', rest, g)"
    "set rest \<subseteq> set cs" "length rest \<le> length cs"
    using Cons.IH by blast
  show ?case
  proof (cases "p c")
    case True
    then have "star_cc p Some (prev, c # cs, g) = Some (prev', rest, g)" using r by simp
    then show ?thesis using r by auto
  next
    case False
    then show ?thesis by simp
  qed
qed

lemma sub_from_Plus_Nil: "sub_from ic (Plus cl) repl prev [] = []"
  by (subst sub_from.simps) simp

lemma sub_from_Plus_no:
  "\<not> in_cc cl c \<Longrightarrow>
   sub_from ic (Plus cl) repl prev (c # cs) = c # sub_from ic (Plus cl) repl (Some c) cs"
  by (subst sub_from.simps) simp

lemma sub_from_Plus_yes:
  "in_cc cl c \<Longrightarrow> star_cc (in_cc cl) Some (Some c, cs, None) = Some (prev', rest, g) \<Longrightarrow>
   length rest \<le> length cs \<Longrightarrow>
   sub_from ic (Plus cl) repl prev (c # cs) = expand repl g @ sub_from ic (Plus cl) repl prev' rest"
  by (subst sub_from.simps) simp

lemma sub_from_plus_chars:
  "x \<in> set (sub_from ic (Plus cl) [Txt t] prev s) \<Longrightarrow>
   x \<in> set t \<or> (x \<in> set s \<and> \<not> in_cc cl x)"
proof (induction "length s" arbitrary: s prev rule: less_induct)
  case less
  show ?case
  proof (cases s)
    case Nil
    then show ?thesis using less.prems by (simp add: sub_from_Plus_Nil)
  next
    case (Cons c cs)
    show ?thesis
    proof (cases "in_cc cl c")
      case True
      obtain prev' rest where r: "star_cc (in_cc cl) Some (Some c, cs, None) = Some (prev', rest, None)"
        and sub: "set rest \<subseteq> set cs" and len: "length rest \<le> length cs"
        using star_cc_total [of "in_cc cl" "Some c" cs None] by blast
      have "sub_from ic (Plus cl) [Txt t] prev s = t @ sub_from ic (Plus cl) [Txt t] prev' rest"
        using sub_from_Plus_yes [OF True r len, of ic "[Txt t]" prev] Cons by simp
      then have "x \<in> set t \<or> x \<in> set (sub_from ic (Plus cl) [Txt t] prev' rest)"
        using less.prems by auto
      then show ?thesis
      proof
        assume "x \<in> set t"
        then show ?thesis by simp
      next
        assume x: "x \<in> set (sub_from ic (Plus cl) [Txt t] prev' rest)"
        have "length rest < length s" using len Cons by simp
        from less.hyps [OF this x] show ?thesis using sub Cons by auto
      qed
    next
      case False
      have "sub_from ic (Plus cl) [Txt t] prev s = c # sub_from ic (Plus cl) [Txt t] (Some c) cs"
        using sub_from_Plus_no [OF False, of ic "[Txt t]" prev cs] Cons by simp
      then have "x = c \<or> x \<in> set (sub_from ic (Plus cl) [Txt t] (Some c) cs)"
        using less.prems by auto
      then show ?thesis
      proof
        assume "x = c"
        then show ?thesis using False Cons by simp
      next
        assume x: "x \<in> set (sub_from ic (Plus cl) [Txt t] (Some c) cs)"
        have "length cs < length s" using Cons by simp
        from less.hyps [OF this x] show ?thesis using Cons by auto
      qed
    qed
  qed
qed

lemma sub_from_no_match:
  "re_match ic r Some (prev, s, None) = None \<Longrightarrow>
   sub_from ic r repl prev s
     = (case s of [] \<Rightarrow> [] | c # cs \<Rightarrow> c # sub_from ic r repl (Some c) cs)"
  by (subst sub_from.simps) simp

lemma sub_from_match:
  "re_match ic r Some (prev, s, None) = Some (prev', rest, g) \<Longrightarrow> length rest < length s \<Longrightarrow>
   sub_from ic r repl prev s = expand repl g @ sub_from ic r repl prev' rest"
  by (subst sub_from.simps) simp

lemma sub_from_empty_match:
  "re_match ic r Some (prev, s, None) = Some (prev', rest, g) \<Longrightarrow> \<not> length rest < length s \<Longrightarrow>
   sub_from ic r repl prev s
     = expand repl g @ (case s of [] \<Rightarrow> [] | c # cs \<Rightarrow> c # sub_from ic r repl (Some c) cs)"
  by (subst sub_from.simps) simp

lemma sub_from_subset:
  assumes M: "\<And>prev s prev' rest g. re_match ic r Some (prev, s, None) = Some (prev', rest, g)
                \<Longrightarrow> set rest \<subseteq> set s \<and> set (expand repl g) \<subseteq> set s"
  shows "set (sub_from ic r repl prev s) \<subseteq> set s"
proof (induction "length s" arbitrary: s prev rule: less_induct)
  case less
  have tail: "set (case s of [] \<Rightarrow> [] | c # cs \<Rightarrow> c # sub_from ic r repl (Some c) cs) \<subseteq> set s"
  proof (cases s)
    case Nil
    then show ?thesis by simp
  next
    case (Cons c cs)
    have "length cs < length s" using Cons by simp
    from less.hyps [OF this, of "Some c"] show ?thesis using Cons by auto
  qed
  show ?case
  proof (cases "re_match ic r Some (prev, s, None)")
    case None
    show ?thesis using tail by (simp only: sub_from_no_match [OF None])
  next
    case (Some res)
    obtain prev' rest g where res: "res = (prev', rest, g)" by (cases res) auto
    have mt: "re_match ic r Some (prev, s, None) = Some (prev', rest, g)" using Some res by simp
    have m: "set rest \<subseteq> set s" "set (expand repl g) \<subseteq> set s"
      using M [OF mt] by simp_all
    show ?thesis
    proof (cases "length rest < length s")
      case True
      have "set (sub_from ic r repl prev' rest) \<subseteq> set rest" using less.hyps [OF True] .
      then show ?thesis using m by (simp only: sub_from_match [OF mt True]) auto
    next
      case False
      show ?thesis using m tail by (simp only: sub_from_empty_match [OF mt False]) auto
    qed
  qed
qed

lemma tighten_punctuation_subset: "set (tighten_punctuation s) \<subseteq> set s"
  unfolding tighten_punctuation_def re_sub_def
proof (rule sub_from_subset)
  fix prev s prev' rest g
  assume a: "re_match False (Then (Star Space) (Group (Cls (OneOf ''.,?!'')))) Some (prev, s, None)
             = Some (prev', rest, g)"
  let ?k = "\<lambda>st'. re_match False (Group (Cls (OneOf ''.,?!''))) Some st'"
  from a have "star_cc isspace ?k (prev, s, None) = Some (prev', rest, g)"
    by (simp add: in_cc_Space)
  from star_cc_reach [OF this] obtain p1 s1 where
    s1: "set s1 \<subseteq> set s" and k: "?k (p1, s1, None) = Some (prev', rest, g)" by blast
  from k obtain c where "s1 = c # rest" "g = Some [c]"
    by (cases s1) (auto split: if_splits)
  then show "set rest \<subseteq> set s \<and> set (expand [G1] g) \<subseteq> set s"
    using s1 by auto
qed

lemma collapse_whitespace_chars:
  "x \<in> set (collapse_whitespace s) \<Longrightarrow> x = CHR '' '' \<or> \<not> isspace x"
  unfolding collapse_whitespace_def re_sub_def
  using sub_from_plus_chars [of x False Space "'' ''" None s] by auto

text \<open>
  Claim C10. The result of \<open>normalize_pronounced_punctuation\<close> never contains a newline:
  the pass \<open>re.sub(r"\s+", " ", ...)\<close> leaves no whitespace character but the space, and
  the passes after it only delete characters.
\<close>

theorem normalize_no_newline: "CHR 0x0A \<notin> set (normalize_pronounced_punctuation text)"
proof -
  define y where "y = space_operators (collapse_spaces (tighten_brackets (tighten_symbols
                        (apply_rules PUNCT_PATTERNS (apply_rules DOT_EXT_PATTERNS text)))))"
  have r: "normalize_pronounced_punctuation text
           = strip (strip (tighten_punctuation (collapse_whitespace y)))"
    by (simp add: normalize_pronounced_punctuation_def y_def)
  have "CHR 0x0A \<notin> set (collapse_whitespace y)"
    using collapse_whitespace_chars [of "CHR 0x0A" y] by (auto simp: isspace_def)
  then have "CHR 0x0A \<notin> set (tighten_punctuation (collapse_whitespace y))"
    using tighten_punctuation_subset by blast
  then have "CHR 0x0A \<notin> set (strip (strip (tighten_punctuation (collapse_whitespace y))))"
    using set_strip by blast
  then show ?thesis unfolding r .
qed

subsection \<open>Two utterances, pass by pass\<close>

lemma plus_extension_rules:
  "apply_rules DOT_EXT_PATTERNS ''print a plus b'' = ''print a plus b''"
  by code_simp

lemma plus_punctuation_rules:
  "apply_rules PUNCT_PATTERNS ''print a plus b'' = ''print a + b''"
  by code_simp

lemma plus_tighten_symbols: "tighten_symbols ''print a + b'' = ''print a+b''"
  by code_simp

lemma plus_tighten_brackets: "tighten_brackets ''print a+b'' = ''print a+b''"
  by code_simp

lemma plus_collapse_spaces: "collapse_spaces ''print a+b'' = ''print a+b''"
  by code_simp

lemma plus_space_operators: "space_operators ''print a+b'' = ''print a + b''"
  by code_simp

lemma plus_collapse_whitespace: "collapse_whitespace ''print a + b'' = ''print a + b''"
  by code_simp

lemma plus_tighten_punctuation: "tighten_punctuation ''print a + b'' = ''print a + b''"
  by code_simp

lemma plus_strip: "strip ''print a + b'' = ''print a + b''"
  by code_simp

text \<open>
  Claim C5. \<open>normalize_pronounced_punctuation("print a plus b")\<close> is \<open>print a + b\<close>: the
  rules turn the word \<open>plus\<close> into \<open>+\<close>, the tightening pass removes the spaces around
  it, and the pass that spaces the operators puts one space back on each side.
\<close>

theorem normalize_print_a_plus_b:
  "normalize_pronounced_punctuation ''print a plus b'' = ''print a + b''
   \<and> apply_rules PUNCT_PATTERNS (apply_rules DOT_EXT_PATTERNS ''print a plus b'') = ''print a + b''
   \<and> tighten_symbols ''print a + b'' = ''print a+b''
   \<and> space_operators (collapse_spaces (tighten_brackets ''print a+b'')) = ''print a + b''"
  by (simp only: normalize_pronounced_punctuation_def Let_def plus_extension_rules
      plus_punctuation_rules plus_tighten_symbols plus_tighten_brackets plus_collapse_spaces
      plus_space_operators plus_collapse_whitespace plus_tighten_punctuation plus_strip
      simp_thms)

lemma txt_extension_rules:
  "apply_rules DOT_EXT_PATTERNS ''save file dot t x t'' = ''save file .txt''"
  by code_simp

lemma txt_punctuation_rules:
  "apply_rules PUNCT_PATTERNS ''save file .txt'' = ''save file .txt''"
  by code_simp

lemma txt_tighten_symbols: "tighten_symbols ''save file .txt'' = ''save file.txt''"
  by code_simp

lemma txt_tighten_brackets: "tighten_brackets ''save file.txt'' = ''save file.txt''"
  by code_simp

lemma txt_collapse_spaces: "collapse_spaces ''save file.txt'' = ''save file.txt''"
  by code_simp

lemma txt_space_operators: "space_operators ''save file.txt'' = ''save file.txt''"
  by code_simp

lemma txt_collapse_whitespace: "collapse_whitespace ''save file.txt'' = ''save file.txt''"
  by code_simp

lemma txt_tighten_punctuation: "tighten_punctuation ''save file.txt'' = ''save file.txt''"
  by code_simp

lemma txt_strip: "strip ''save file.txt'' = ''save file.txt''"
  by code_simp

lemma txt_endswith: "endswith ''save file.txt'' ''file.txt''"
  by code_simp

text \<open>
  Claim C6. \<open>normalize_pronounced_punctuation("save file dot t x t")\<close> ends in
  \<open>file.txt\<close>: the extension rules, which run before the punctuation rules, rewrite
  \<open>dot t x t\<close> to \<open>.txt\<close>, and the tightening pass removes the space before the dot.
\<close>

theorem normalize_save_file_dot_t_x_t:
  "endswith (normalize_pronounced_punctuation ''save file dot t x t'') ''file.txt''
   \<and> normalize_pronounced_punctuation ''save file dot t x t'' = ''save file.txt''
   \<and> apply_rules DOT_EXT_PATTERNS ''save file dot t x t'' = ''save file .txt''
   \<and> tighten_symbols (apply_rules PUNCT_PATTERNS ''save file .txt'') = ''save file.txt''"
  by (simp only: normalize_pronounced_punctuation_def Let_def txt_extension_rules
      txt_punctuation_rules txt_tighten_symbols txt_tighten_brackets txt_collapse_spaces
      txt_space_operators txt_collapse_whitespace txt_tighten_punctuation txt_strip
      txt_endswith simp_thms)

end
